theory Spec2Isabelle
  imports Main "HOL-Library.Sublist"
begin

section \<open>The protocol rewriter of docsPreProcessing.py\<close>

text \<open>
  The script reads a Swift listing, collects the names that follow \<open>protocol\<close>, and
  rewrites every \<open>protocol D {\<close> into an empty protocol followed by an extension:
  \<^verbatim>\<open>
  allProtocols = re.findall(r' protocol (.*?) {', str)
  moreProtocols = re.findall(r' protocol (.*?) : ', str)
  allProtocols += moreProtocols
  data = list(dict.fromkeys(allProtocols))
  for declaration in data:
      current = " protocol " + declaration + " {"
      new = " protocol " + declaration + "{ }" + "\n" + "extension " + declaration + " {"
      str = str.replace(current, new)
  \<close>
  A Python string is modelled as a \<^typ>\<open>string\<close>, one \<^typ>\<open>char\<close> for each character of
  the text; the script only ever tests for the ASCII characters of its literals and for
  the line feed, every other character is copied.
\<close>

subsection \<open>Regular expression search\<close>

text \<open>
  The lazy group \<open>(.*?)\<close> followed by a literal terminator \<open>t\<close>: the shortest run of
  characters other than the line feed after which \<open>t\<close> stands. The result is the
  captured run and the text after the terminator; \<open>None\<close> when a line feed or the end
  of the text comes first.
\<close>

fun lazy_until :: "string \<Rightarrow> string \<Rightarrow> (string \<times> string) option" where
  "lazy_until t [] = (if t = [] then Some ([], []) else None)"
| "lazy_until t (c # cs) =
     (if prefix t (c # cs) then Some ([], drop (length t) (c # cs))
      else if c = CHR 0x0A then None
      else (case lazy_until t cs of
              None \<Rightarrow> None
            | Some (n, r) \<Rightarrow> Some (c # n, r)))"

text \<open>
  \<open>re.findall\<close> for the pattern \<open>' protocol (.*?)' + t\<close>: the captured groups of the
  non-overlapping matches, leftmost first. The search resumes behind a match, and one
  character further on where no match starts.
\<close>

function findall :: "string \<Rightarrow> string \<Rightarrow> string list" where
  "findall t [] = []"
| "findall t (c # cs) =
     (if prefix '' protocol '' (c # cs)
      then (case lazy_until t (drop (length '' protocol '') (c # cs)) of
              Some (n, r) \<Rightarrow> n # findall t r
            | None \<Rightarrow> findall t cs)
      else findall t cs)"
  by pat_completeness auto
termination
proof (relation "measure (\<lambda>(t, s). length s)")
  fix t :: string and c cs x2 x y
  assume a: "lazy_until t (drop (length '' protocol '') (c # cs)) = Some x2" "(x, y) = x2"
  have le: "lazy_until t s = Some (n, r) \<Longrightarrow> length r \<le> length s" for s n r
    by (induction s arbitrary: n) (auto split: if_splits option.splits)
  from a have "lazy_until t (drop (length '' protocol '') (c # cs)) = Some (x, y)" by simp
  from le [OF this]
  show "((t, y), t, c # cs) \<in> measure (\<lambda>(t, s). length s)" by simp
qed simp_all

subsection \<open>Distinct names in first-seen order\<close>

text \<open>
  \<open>list(dict.fromkeys(ks))\<close>: the dictionary keeps its keys in insertion order and a
  key that is already present keeps its place. The dictionary is its list of keys
  (every value is \<open>None\<close>).
\<close>

fun insert_keys :: "'a list \<Rightarrow> 'a list \<Rightarrow> 'a list" where
  "insert_keys d [] = d"
| "insert_keys d (k # ks) = insert_keys (if k \<in> set d then d else d @ [k]) ks"

definition fromkeys :: "'a list \<Rightarrow> 'a list" where
  "fromkeys ks = insert_keys [] ks"

subsection \<open>Literal replacement\<close>

text \<open>
  \<open>str.replace(old, new)\<close>: every occurrence of \<open>old\<close>, found from left to right
  without overlap, becomes \<open>new\<close>. For an empty \<open>old\<close> Python puts \<open>new\<close> before every
  character and at the end.
\<close>

fun replace :: "'a list \<Rightarrow> 'a list \<Rightarrow> 'a list \<Rightarrow> 'a list" where
  "replace old new [] = (if old = [] then new else [])"
| "replace old new (c # cs) =
     (if old = [] then new @ c # replace old new cs
      else if prefix old (c # cs) then new @ replace old new (drop (length old) (c # cs))
      else c # replace old new cs)"

subsection \<open>The transformation\<close>

definition allProtocols :: "string \<Rightarrow> string list" where
  "allProtocols str = findall '' {'' str"

definition moreProtocols :: "string \<Rightarrow> string list" where
  "moreProtocols str = findall '' : '' str"

definition data :: "string \<Rightarrow> string list" where
  "data str = fromkeys (allProtocols str @ moreProtocols str)"

definition current :: "string \<Rightarrow> string" where
  "current declaration = '' protocol '' @ declaration @ '' {''"

definition new :: "string \<Rightarrow> string" where
  "new declaration =
     '' protocol '' @ declaration @ ''{ }'' @ ''\<newline>'' @ ''extension '' @ declaration @ '' {''"

text \<open>The loop over \<open>data\<close>: one replacement over the whole current text for each name.\<close>

fun substitute :: "string list \<Rightarrow> string \<Rightarrow> string" where
  "substitute [] str = str"
| "substitute (declaration # rest) str =
     substitute rest (replace (current declaration) (new declaration) str)"

text \<open>The text that \<open>main\<close> returns when the input file holds \<open>str\<close>.\<close>

definition rewriteProtocols :: "string \<Rightarrow> string" where
  "rewriteProtocols str = substitute (data str) str"

subsection \<open>Files\<close>

text \<open>
  \<open>main\<close> reads \<open>SwiftUI.swift\<close>, appends the result to \<open>tempData.txt\<close> and returns it.
  Either \<open>open\<close> can raise; nothing else in the script does.
\<close>

datatype error = OpenReadError | OpenAppendError

record filesystem =
  contents :: "string \<rightharpoonup> string"
  appendable :: "string \<Rightarrow> bool"

definition main :: "filesystem \<Rightarrow> error + (string \<times> filesystem)" where
  "main fs =
     (case contents fs ''SwiftUI.swift'' of
        None \<Rightarrow> Inl OpenReadError
      | Some str \<Rightarrow>
          let out = rewriteProtocols str in
          if \<not> appendable fs ''tempData.txt'' then Inl OpenAppendError
          else Inr (out,
            fs\<lparr>contents := (contents fs)(''tempData.txt'' \<mapsto>
              (case contents fs ''tempData.txt'' of None \<Rightarrow> [] | Some before \<Rightarrow> before) @ out)\<rparr>))"

subsection \<open>Names that rewrite cleanly\<close>

text \<open>
  A name is plain when it is not empty, does not end with a space, and the text
  \<open>protocol\<close> with a space on each side does not occur in the name with a space put
  on each side of it. The names of ordinary declarations are plain.
\<close>

definition plain_name :: "string \<Rightarrow> bool" where
  "plain_name e \<longleftrightarrow>
     e \<noteq> [] \<and> last e \<noteq> CHR '' '' \<and> \<not> sublist '' protocol '' ('' '' @ e @ '' '')"

subsection \<open>Joining pieces\<close>

text \<open>
  \<open>sep.join(ps)\<close>: the pieces with \<open>sep\<close> between each two neighbours. It serves to
  say what a replacement does: the text is its pieces joined by the old literal, the
  result the same pieces joined by the new one.
\<close>

fun join :: "'a list \<Rightarrow> 'a list list \<Rightarrow> 'a list" where
  "join sep [] = []"
| "join sep [p] = p"
| "join sep (p # q # ps) = p @ sep @ join sep (q # ps)"

subsection \<open>Distinct values by first occurrence\<close>

text \<open>
  The reduction of a list to its distinct values in the words of the specification:
  the first occurrence of a value is kept and its later occurrences are dropped, so the
  values stand in the order of their first occurrences.
\<close>

fun keep_first :: "'a list \<Rightarrow> 'a list" where
  "keep_first [] = []"
| "keep_first (x # xs) = x # keep_first (filter (\<lambda>y. y \<noteq> x) xs)"

section \<open>Properties\<close>

subsection \<open>Lengths\<close>

lemma replace_length_le:
  "length old \<le> length rep \<Longrightarrow> length s \<le> length (replace old rep s)"
proof (induction old rep s rule: replace.induct)
  case (1 old rep)
  then show ?case by simp
next
  case (2 old rep c cs)
  show ?case
  proof (cases "old = []")
    case True
    with 2 show ?thesis by simp
  next
    case False
    show ?thesis
    proof (cases "prefix old (c # cs)")
      case True
      with False 2 have "length (drop (length old) (c # cs)) \<le>
          length (replace old rep (drop (length old) (c # cs)))"
        by blast
      moreover from True have "length old \<le> length (c # cs)"
        by (rule prefix_length_le)
      ultimately show ?thesis using False True "2.prems" by simp
    next
      case no: False
      with False 2 show ?thesis by simp
    qed
  qed
qed

lemma current_shorter: "length (current d) < length (new d)"
  by (simp add: current_def new_def)

lemma substitute_length_le: "length s \<le> length (substitute ds s)"
proof (induction ds arbitrary: s)
  case Nil
  show ?case by simp
next
  case (Cons d ds)
  have "length s \<le> length (replace (current d) (new d) s)"
    using current_shorter [of d] by (intro replace_length_le) simp
  also have "\<dots> \<le> length (substitute ds (replace (current d) (new d) s))"
    by (rule Cons.IH)
  finally show ?case by simp
qed

text \<open>
  C10: the returned text is never shorter than the input text: every rule puts a
  strictly longer text in the place of each match.
\<close>

theorem C10_never_shorter:
  "length str \<le> length (rewriteProtocols str) \<and>
   length (current d) < length (new d) \<and>
   length s \<le> length (replace (current d) (new d) s)"
proof (intro conjI)
  show "length str \<le> length (rewriteProtocols str)"
    unfolding rewriteProtocols_def by (rule substitute_length_le)
  show "length (current d) < length (new d)" by (rule current_shorter)
  show "length s \<le> length (replace (current d) (new d) s)"
    using current_shorter [of d] by (intro replace_length_le) simp
qed

subsection \<open>Occurrences and literal replacement\<close>

lemma prefix_within:
  "prefix p (u @ v) \<Longrightarrow> length p \<le> length u \<Longrightarrow> prefix p u"
  by (auto simp: prefix_append)

lemma butlast_last_append: "old \<noteq> [] \<Longrightarrow> butlast old @ last old # b = old @ b"
  by (induction old) simp_all

lemma not_sublist_butlast: "old \<noteq> [] \<Longrightarrow> \<not> sublist old (butlast old)"
proof
  assume "old \<noteq> []" and "sublist old (butlast old)"
  then have "length old \<le> length (butlast old)" by (intro sublist_length_le)
  then have "length old \<le> length old - 1" by (simp only: length_butlast)
  moreover from \<open>old \<noteq> []\<close> have "0 < length old" by simp
  ultimately show False by arith
qed

lemma replace_absent:
  "old \<noteq> [] \<Longrightarrow> \<not> sublist old s \<Longrightarrow> replace old rep s = s"
proof (induction s)
  case Nil
  then show ?case by simp
next
  case (Cons c cs)
  from Cons.prems have "\<not> prefix old (c # cs)" "\<not> sublist old cs"
    by (auto simp: sublist_Cons_right)
  with Cons show ?case by simp
qed

lemma replace_leftmost:
  assumes "old \<noteq> []" and "\<not> sublist old (a @ butlast old)"
  shows "replace old rep (a @ old @ b) = a @ rep @ replace old rep b"
  using assms(2)
proof (induction a)
  case Nil
  from assms(1) show ?case by (cases old) simp_all
next
  case (Cons c a)
  from Cons.prems have np: "\<not> prefix old (c # a @ butlast old)"
    and ns: "\<not> sublist old (a @ butlast old)"
    by (auto simp: sublist_Cons_right)
  have "\<not> prefix old (c # a @ old @ b)"
  proof
    assume p: "prefix old (c # a @ old @ b)"
    have e: "c # a @ old @ b = (c # a @ butlast old) @ (last old # b)"
      by (simp add: butlast_last_append [OF assms(1)])
    have "length old \<le> length (c # a @ butlast old)" using assms(1) by simp
    with p e have "prefix old (c # a @ butlast old)"
      using prefix_within [of old "c # a @ butlast old" "last old # b"] by simp
    with np show False by simp
  qed
  with assms(1) Cons.IH [OF ns] show ?case by simp
qed

lemma leftmost_occurrence:
  assumes "old \<noteq> []" and "sublist old s"
  shows "\<exists>a b. s = a @ old @ b \<and> \<not> sublist old (a @ butlast old)"
  using assms(2)
proof (induction s)
  case Nil
  with assms(1) show ?case by simp
next
  case (Cons c cs)
  show ?case
  proof (cases "prefix old (c # cs)")
    case True
    then obtain b where "c # cs = old @ b" by (auto simp: prefix_def)
    moreover have "\<not> sublist old (butlast old)"
      using assms(1) by (rule not_sublist_butlast)
    ultimately have "c # cs = [] @ old @ b \<and> \<not> sublist old ([] @ butlast old)" by simp
    then show ?thesis by blast
  next
    case False
    with Cons.prems have "sublist old cs" by (simp add: sublist_Cons_right)
    from Cons.IH [OF this] obtain a b where ab: "cs = a @ old @ b"
      and n: "\<not> sublist old (a @ butlast old)" by blast
    have "\<not> prefix old (c # a @ butlast old)"
    proof
      assume "prefix old (c # a @ butlast old)"
      then have "prefix old ((c # a @ butlast old) @ (last old # b))"
        by (rule prefix_prefix)
      then have "prefix old (c # a @ old @ b)"
        by (simp add: butlast_last_append [OF assms(1)])
      with ab False show False by simp
    qed
    with n have "\<not> sublist old ((c # a) @ butlast old)"
      by (simp add: sublist_Cons_right)
    moreover from ab have "c # cs = (c # a) @ old @ b" by simp
    ultimately show ?thesis by blast
  qed
qed

subsection \<open>What the search extracts\<close>

lemma lazy_until_sound:
  assumes "lazy_until t s = Some (n, r)"
  shows "s = n @ t @ r \<and> CHR 0x0A \<notin> set n \<and> (t \<noteq> [] \<longrightarrow> \<not> sublist t (n @ butlast t))"
  using assms
proof (induction s arbitrary: n)
  case Nil
  then show ?case by (simp split: if_splits)
next
  case (Cons c cs)
  show ?case
  proof (cases "prefix t (c # cs)")
    case True
    with Cons.prems have n: "n = []" and r: "r = drop (length t) (c # cs)" by simp_all
    from True have "c # cs = t @ drop (length t) (c # cs)"
      by (auto simp: prefix_def)
    moreover have "t \<noteq> [] \<longrightarrow> \<not> sublist t (butlast t)"
      by (simp add: not_sublist_butlast)
    ultimately show ?thesis using n r by simp
  next
    case False
    with Cons.prems obtain n' where c: "c \<noteq> CHR 0x0A"
      and l: "lazy_until t cs = Some (n', r)" and n: "n = c # n'"
      by (auto split: if_splits option.splits)
    from Cons.IH [OF l] have cs: "cs = n' @ t @ r" and nl: "CHR 0x0A \<notin> set n'"
      and ns: "t \<noteq> [] \<longrightarrow> \<not> sublist t (n' @ butlast t)" by simp_all
    have "t \<noteq> [] \<longrightarrow> \<not> sublist t (c # n' @ butlast t)"
    proof (intro impI notI)
      assume t: "t \<noteq> []" and "sublist t (c # n' @ butlast t)"
      with ns have "prefix t (c # n' @ butlast t)" by (simp add: sublist_Cons_right)
      then have "prefix t ((c # n' @ butlast t) @ (last t # r))" by (rule prefix_prefix)
      then have "prefix t (c # n' @ t @ r)" by (simp add: butlast_last_append [OF t])
      with False cs show False by simp
    qed
    with cs nl c n show ?thesis by simp
  qed
qed

lemma findall_sound:
  "n \<in> set (findall t s) \<Longrightarrow>
     CHR 0x0A \<notin> set n \<and> sublist ('' protocol '' @ n @ t) s \<and> (t \<noteq> [] \<longrightarrow> \<not> sublist t n)"
proof (induction t s rule: findall.induct)
  case (1 t)
  then show ?case by simp
next
  case (2 t c cs)
  define P where "P = '' protocol ''"
  let ?G = "\<lambda>u. CHR 0x0A \<notin> set n \<and> sublist (P @ n @ t) u \<and> (t \<noteq> [] \<longrightarrow> \<not> sublist t n)"
  have eq: "findall t (c # cs) =
     (if prefix P (c # cs)
      then (case lazy_until t (drop (length P) (c # cs)) of
              Some (n, r) \<Rightarrow> n # findall t r
            | None \<Rightarrow> findall t cs)
      else findall t cs)"
    unfolding P_def by (rule findall.simps(2))
  note IH = "2.IH" [folded P_def]
  have step: "?G cs \<Longrightarrow> ?G (c # cs)"
    by (simp only: sublist_Cons_right) blast
  have "?G (c # cs)"
  proof (cases "prefix P (c # cs)")
    case False
    with "2.prems" eq have "n \<in> set (findall t cs)" by simp
    with IH(3) False have "?G cs" by blast
    then show ?thesis by (rule step)
  next
    case True
    show ?thesis
    proof (cases "lazy_until t (drop (length P) (c # cs))")
      case None
      with "2.prems" eq True have "n \<in> set (findall t cs)" by simp
      with IH(1) True None have "?G cs" by blast
      then show ?thesis by (rule step)
    next
      case (Some a)
      obtain m r where a: "a = (m, r)" by (cases a)
      from Some a have l: "lazy_until t (drop (length P) (c # cs)) = Some (m, r)" by simp
      from lazy_until_sound [OF l]
      have d: "drop (length P) (c # cs) = m @ t @ r"
        and nl: "CHR 0x0A \<notin> set m"
        and ns: "t \<noteq> [] \<longrightarrow> \<not> sublist t (m @ butlast t)" by blast+
      from True obtain z where z: "c # cs = P @ z" by (auto simp: prefix_def)
      then have "drop (length P) (c # cs) = z" by simp
      with d z have e: "c # cs = (P @ m @ t) @ r" by simp
      from "2.prems" eq True l have mem: "n = m \<or> n \<in> set (findall t r)" by simp
      show ?thesis
      proof (cases "n = m")
        case True
        have "sublist (P @ m @ t) ((P @ m @ t) @ r)"
          by (rule sublist_append_rightI)
        then have "sublist (P @ m @ t) (c # cs)" by (simp only: e)
        moreover have "t \<noteq> [] \<longrightarrow> \<not> sublist t m"
        proof (intro impI notI)
          assume "t \<noteq> []" "sublist t m"
          then have "sublist t (m @ butlast t)" by (simp add: sublist_append)
          with ns \<open>t \<noteq> []\<close> show False by simp
        qed
        ultimately show ?thesis using True nl by blast
      next
        case False
        with mem have "n \<in> set (findall t r)" by simp
        from IH(2) [OF \<open>prefix P (c # cs)\<close> Some a [symmetric] this]
        have i: "?G r" .
        then have "sublist (P @ n @ t) ((P @ m @ t) @ r)"
          by (simp only: sublist_append [of _ "P @ m @ t" r]) blast
        then have "sublist (P @ n @ t) (c # cs)" by (simp only: e)
        with i show ?thesis by blast
      qed
    qed
  qed
  then show ?case unfolding P_def .
qed

lemma insert_keys_set: "set (insert_keys d ks) = set d \<union> set ks"
  by (induction ks arbitrary: d) auto

lemma insert_keys_distinct: "distinct d \<Longrightarrow> distinct (insert_keys d ks)"
  by (induction ks arbitrary: d) auto

lemma data_set: "set (data s) = set (allProtocols s) \<union> set (moreProtocols s)"
  by (simp add: data_def fromkeys_def insert_keys_set)

lemma data_no_newline: "d \<in> set (data s) \<Longrightarrow> CHR 0x0A \<notin> set d"
  using findall_sound [of d "'' {''" s] findall_sound [of d "'' : ''" s]
  by (auto simp: data_set allProtocols_def moreProtocols_def)

subsection \<open>Occurrences around a replacement\<close>

lemma prefix_stops_before:
  "c \<notin> set q \<Longrightarrow> prefix q (w @ c # v) \<Longrightarrow> prefix q w"
  by (auto simp: prefix_append prefix_Cons)

lemma sublist_split_at:
  assumes "c \<notin> set q" and "q \<noteq> []"
  shows "sublist q (u @ c # v) \<longleftrightarrow> sublist q u \<or> sublist q v"
proof
  assume "sublist q u \<or> sublist q v"
  then show "sublist q (u @ c # v)"
    by (auto simp: sublist_append sublist_Cons_right)
next
  assume "sublist q (u @ c # v)"
  then show "sublist q u \<or> sublist q v"
  proof (induction u)
    case Nil
    then have "prefix q (c # v) \<or> sublist q v" by (simp add: sublist_Cons_right)
    moreover have "\<not> prefix q (c # v)"
      using assms by (cases q) auto
    ultimately show ?case by simp
  next
    case (Cons x u)
    from Cons.prems have "prefix q ((x # u) @ c # v) \<or> sublist q (u @ c # v)"
      by (simp add: sublist_Cons_right)
    then show ?case
    proof
      assume "prefix q ((x # u) @ c # v)"
      with assms(1) have "prefix q (x # u)" by (rule prefix_stops_before)
      then show ?thesis by blast
    next
      assume "sublist q (u @ c # v)"
      then have "sublist q u \<or> sublist q v" by (rule Cons.IH)
      then show ?thesis by (auto simp: sublist_Cons_right)
    qed
  qed
qed

lemma sublist_drop_last:
  "sublist (q @ [x]) (w @ [y]) \<Longrightarrow> x \<noteq> y \<Longrightarrow> sublist (q @ [x]) w"
  by (simp add: sublist_snoc)

lemma sublist_before_brace:
  assumes "sublist (q0 @ [CHR '' '', CHR ''{'']) (w @ [CHR ''{'', CHR '' '', CHR ''}''])"
    and "last w \<noteq> CHR '' ''"
  shows "sublist (q0 @ [CHR '' '', CHR ''{'']) w"
proof -
  let ?q = "(q0 @ [CHR '' '']) @ [CHR ''{'']"
  from assms(1) have "sublist ?q (((w @ [CHR ''{'']) @ [CHR '' '']) @ [CHR ''}''])"
    by simp
  then have "sublist ?q ((w @ [CHR ''{'']) @ [CHR '' ''])"
    by (rule sublist_drop_last) simp
  then have "sublist ?q (w @ [CHR ''{''])"
    by (rule sublist_drop_last) simp
  then have "suffix ?q (w @ [CHR ''{'']) \<or> sublist ?q w"
    by (simp only: sublist_snoc)
  moreover have "\<not> suffix ?q (w @ [CHR ''{''])"
  proof
    assume "suffix ?q (w @ [CHR ''{''])"
    then have "suffix (q0 @ [CHR '' '']) w" by (simp only: snoc_suffix_snoc)
    then obtain z where "w = z @ q0 @ [CHR '' '']" by (auto simp: suffix_def)
    then have "last w = CHR '' ''" by simp
    with assms(2) show False by simp
  qed
  ultimately show ?thesis by simp
qed

lemma sublist_behind:
  assumes "prefix p q" and "c \<notin> set p" and "\<not> sublist p u" and "sublist q (u @ c # t)"
  shows "sublist q t"
  using assms(3,4)
proof (induction u)
  case Nil
  from Nil(1) have "p \<noteq> []" by auto
  with assms(1) obtain x p' q' where p: "p = x # p'" and q: "q = x # q'"
    by (cases p; cases q) auto
  from p assms(2) have "x \<noteq> c" by auto
  with q have "\<not> prefix q (c # t)" by simp
  with Nil(2) show ?case by (simp add: sublist_Cons_right)
next
  case (Cons x u)
  from Cons.prems(1) have np: "\<not> prefix p (x # u)" and ns: "\<not> sublist p u"
    by (auto simp: sublist_Cons_right)
  have "\<not> prefix q ((x # u) @ c # t)"
  proof
    assume "prefix q ((x # u) @ c # t)"
    with assms(1) have "prefix p ((x # u) @ c # t)" by (rule prefix_order.trans)
    with assms(2) have "prefix p (x # u)" by (rule prefix_stops_before)
    with np show False by simp
  qed
  with Cons.prems(2) have "sublist q (u @ c # t)" by (simp add: sublist_Cons_right)
  with ns show ?case by (rule Cons.IH)
qed

lemma current_no_newline: "CHR 0x0A \<notin> set d \<Longrightarrow> CHR 0x0A \<notin> set (current d)"
  by (simp add: current_def)

lemma current_not_Nil: "current d \<noteq> []"
  by (simp add: current_def)

lemma butlast_current: "butlast (current d) = '' protocol '' @ d @ '' ''"
  by (simp add: current_def butlast_append)

lemma plain_name_extension:
  "plain_name e \<Longrightarrow> \<not> sublist '' protocol '' (''extension '' @ e @ '' '')"
  by (simp add: plain_name_def sublist_Cons_right)

lemma sublist_across_new:
  assumes "plain_name e" and "CHR 0x0A \<notin> set d"
    and "sublist (current d) (a @ new e @ t)"
  shows "sublist (current d) (a @ '' protocol '' @ e) \<or> sublist (current d) t"
proof -
  let ?q = "current d"
  define w where "w = a @ '' protocol '' @ e"
  define u where "u = ''extension '' @ e @ '' ''"
  have "a @ new e @ t = (w @ ''{ }'') @ CHR 0x0A # (u @ CHR ''{'' # t)"
    by (simp add: new_def w_def u_def)
  with assms(3) have "sublist ?q ((w @ ''{ }'') @ CHR 0x0A # (u @ CHR ''{'' # t))"
    by (simp only:)
  then have "sublist ?q (w @ ''{ }'') \<or> sublist ?q (u @ CHR ''{'' # t)"
    by (simp only: sublist_split_at [OF current_no_newline [OF assms(2)] current_not_Nil])
  then show ?thesis
  proof
    assume l: "sublist ?q (w @ ''{ }'')"
    have q: "?q = ('' protocol '' @ d) @ [CHR '' '', CHR ''{'']" by (simp add: current_def)
    from assms(1) have "last w \<noteq> CHR '' ''"
      by (simp add: plain_name_def w_def)
    with l have "sublist ?q w"
      unfolding q by (rule sublist_before_brace)
    then show ?thesis unfolding w_def ..
  next
    assume r: "sublist ?q (u @ CHR ''{'' # t)"
    have "prefix '' protocol '' ?q" by (simp add: current_def)
    moreover have "CHR ''{'' \<notin> set '' protocol ''" by simp
    moreover have "\<not> sublist '' protocol '' u"
      unfolding u_def using assms(1) by (rule plain_name_extension)
    ultimately have "sublist ?q t" using r by (rule sublist_behind)
    then show ?thesis ..
  qed
qed

lemma replace_creates_nothing:
  assumes "plain_name e" and "CHR 0x0A \<notin> set d"
  shows "sublist (current d) (replace (current e) (new e) s) \<Longrightarrow> sublist (current d) s"
proof (induction s rule: length_induct)
  case (1 s)
  show ?case
  proof (cases "sublist (current e) s")
    case False
    with 1(2) show ?thesis by (simp add: replace_absent [OF current_not_Nil])
  next
    case True
    from leftmost_occurrence [OF current_not_Nil True] obtain a b
      where s: "s = a @ current e @ b"
        and lm: "\<not> sublist (current e) (a @ butlast (current e))" by blast
    from 1(2) have "sublist (current d) (a @ new e @ replace (current e) (new e) b)"
      unfolding s by (simp only: replace_leftmost [OF current_not_Nil lm])
    from sublist_across_new [OF assms this] show ?thesis
    proof
      assume "sublist (current d) (a @ '' protocol '' @ e)"
      then have "sublist (current d) ((a @ '' protocol '' @ e) @ ('' {'' @ b))"
        by (simp only: sublist_append [of _ "a @ '' protocol '' @ e"]) blast
      then show ?thesis unfolding s by (simp add: current_def)
    next
      assume r: "sublist (current d) (replace (current e) (new e) b)"
      have "length b < length s" unfolding s by (simp add: current_def)
      with 1(1) r have "sublist (current d) b" by blast
      then have "sublist (current d) ((a @ current e) @ b)"
        by (simp only: sublist_append [of _ "a @ current e"]) blast
      then show ?thesis unfolding s by simp
    qed
  qed
qed

lemma replace_removes:
  assumes "plain_name e" and "CHR 0x0A \<notin> set e"
  shows "\<not> sublist (current e) (replace (current e) (new e) s)"
proof (induction s rule: length_induct)
  case (1 s)
  show ?case
  proof (cases "sublist (current e) s")
    case False
    then show ?thesis by (simp add: replace_absent [OF current_not_Nil])
  next
    case True
    from leftmost_occurrence [OF current_not_Nil True] obtain a b
      where s: "s = a @ current e @ b"
        and lm: "\<not> sublist (current e) (a @ butlast (current e))" by blast
    show ?thesis
    proof
      assume "sublist (current e) (replace (current e) (new e) s)"
      then have "sublist (current e) (a @ new e @ replace (current e) (new e) b)"
        unfolding s by (simp only: replace_leftmost [OF current_not_Nil lm])
      from sublist_across_new [OF assms this] show False
      proof
        assume "sublist (current e) (a @ '' protocol '' @ e)"
        then have "sublist (current e) ((a @ '' protocol '' @ e) @ '' '')"
          by (simp only: sublist_append [of _ "a @ '' protocol '' @ e"]) blast
        then have "sublist (current e) (a @ butlast (current e))"
          by (simp add: butlast_current)
        with lm show False by simp
      next
        assume r: "sublist (current e) (replace (current e) (new e) b)"
        have "length b < length s" unfolding s by (simp add: current_def)
        with 1 r show False by blast
      qed
    qed
  qed
qed

lemma substitute_keeps_absent:
  assumes "CHR 0x0A \<notin> set d"
  shows "\<forall>e\<in>set ds. plain_name e \<Longrightarrow> \<not> sublist (current d) s \<Longrightarrow>
    \<not> sublist (current d) (substitute ds s)"
proof (induction ds arbitrary: s)
  case Nil
  then show ?case by simp
next
  case (Cons e ds)
  from Cons.prems have "plain_name e" by simp
  from replace_creates_nothing [OF this assms] Cons.prems(2)
  have "\<not> sublist (current d) (replace (current e) (new e) s)" by blast
  with Cons.IH Cons.prems(1) show ?case by simp
qed

lemma substitute_removes:
  "\<forall>e\<in>set ds. plain_name e \<and> CHR 0x0A \<notin> set e \<Longrightarrow> d \<in> set ds \<Longrightarrow>
    \<not> sublist (current d) (substitute ds s)"
proof (induction ds arbitrary: s)
  case Nil
  then show ?case by simp
next
  case (Cons e ds)
  show ?case
  proof (cases "d = e")
    case True
    from Cons.prems(1) have pe: "plain_name e" and ne: "CHR 0x0A \<notin> set e" by simp_all
    from replace_removes [OF pe ne]
    have "\<not> sublist (current d) (replace (current e) (new e) s)" unfolding True .
    moreover from Cons.prems(1) have "\<forall>x\<in>set ds. plain_name x" by simp
    moreover from ne True have "CHR 0x0A \<notin> set d" by simp
    ultimately have "\<not> sublist (current d) (substitute ds (replace (current e) (new e) s))"
      using substitute_keeps_absent by blast
    then show ?thesis by simp
  next
    case False
    with Cons.prems(2) have "d \<in> set ds" by simp
    moreover from Cons.prems(1) have "\<forall>e\<in>set ds. plain_name e \<and> CHR 0x0A \<notin> set e" by simp
    ultimately show ?thesis using Cons.IH by simp
  qed
qed

text \<open>
  C4 (as amended): when every processed name is plain, the returned text contains no
  \<open>protocol D {\<close> for any processed name \<open>D\<close>, and neither does the text right after
  the rule for \<open>D\<close>. For other names the claim fails: the rule for a name that ends
  with a space writes \<open>protocol X {\<close> anew.
\<close>

theorem C4_plain_names_stay_rewritten:
  assumes "\<forall>e\<in>set (data str). plain_name e" and "d \<in> set (data str)"
  shows "\<not> sublist (current d) (replace (current d) (new d) s) \<and>
         \<not> sublist (current d) (rewriteProtocols str)"
proof
  from assms have p: "plain_name d" by simp
  from assms(2) have n: "CHR 0x0A \<notin> set d" by (rule data_no_newline)
  from p n show "\<not> sublist (current d) (replace (current d) (new d) s)"
    by (rule replace_removes)
  from assms(1) have "\<forall>e\<in>set (data str). plain_name e \<and> CHR 0x0A \<notin> set e"
    by (simp add: data_no_newline)
  from substitute_removes [OF this assms(2)]
  show "\<not> sublist (current d) (rewriteProtocols str)"
    by (simp add: rewriteProtocols_def)
qed

theorem C4_counterexample:
  "''X'' \<in> set (data '' protocol X { protocol X  {'') \<and>
   sublist (current ''X'') (rewriteProtocols '' protocol X { protocol X  {'')"
  by (simp add: rewriteProtocols_def data_def allProtocols_def moreProtocols_def
      fromkeys_def current_def new_def sublist_Cons_right)

theorem C4_witness:
  "data '' protocol A { protocol B { protocol A {'' = [''A'', ''B''] \<and>
   plain_name ''A'' \<and> plain_name ''B'' \<and>
   \<not> sublist (current ''A'') (rewriteProtocols '' protocol A { protocol B { protocol A {'')"
proof -
  have d: "data '' protocol A { protocol B { protocol A {'' = [''A'', ''B'']"
    by (simp add: data_def allProtocols_def moreProtocols_def fromkeys_def)
  have p: "plain_name ''A''" "plain_name ''B''"
    by (simp_all add: plain_name_def sublist_Cons_right)
  from d p have "\<forall>e\<in>set (data '' protocol A { protocol B { protocol A {''). plain_name e"
    by simp
  moreover from d have "''A'' \<in> set (data '' protocol A { protocol B { protocol A {'')" by simp
  ultimately show ?thesis
    using C4_plain_names_stay_rewritten [of "'' protocol A { protocol B { protocol A {''" "''A''"]
      d p by blast
qed

subsection \<open>Names and their literal form\<close>

lemma substitute_absent:
  "\<forall>d\<in>set ds. \<not> sublist (current d) s \<Longrightarrow> substitute ds s = s"
  by (induction ds) (simp_all add: replace_absent [OF current_not_Nil])

text \<open>
  C2 (as amended): a name whose literal form \<open>protocol D {\<close> does not occur in the
  text produces no substitution, and a text in which no processed name occurs in that
  form is returned unchanged. On the input \<open>protocol OnlyColon : SomeBase { }\<close> the
  name \<open>OnlyColon\<close> is extracted and replaces nothing, but the first pattern extracts
  \<open>OnlyColon : SomeBase\<close> as well, whose literal form is the declaration itself, so
  the declaration is rewritten. With the opening brace on the next line only
  \<open>OnlyColon\<close> is extracted and the output equals the input.
\<close>

theorem C2_no_literal_form_no_substitution:
  "(\<not> sublist (current D) s \<longrightarrow> replace (current D) (new D) s = s) \<and>
   ((\<forall>d\<in>set (data str). \<not> sublist (current d) str) \<longrightarrow> rewriteProtocols str = str) \<and>
   data '' protocol OnlyColon : SomeBase { }'' = [''OnlyColon : SomeBase'', ''OnlyColon''] \<and>
   replace (current ''OnlyColon'') (new ''OnlyColon'') '' protocol OnlyColon : SomeBase { }'' =
     '' protocol OnlyColon : SomeBase { }'' \<and>
   rewriteProtocols '' protocol OnlyColon : SomeBase { }'' =
     '' protocol OnlyColon : SomeBase{ }\<newline>extension OnlyColon : SomeBase { }'' \<and>
   data '' protocol OnlyColon : SomeBase\<newline>{ }'' = [''OnlyColon''] \<and>
   rewriteProtocols '' protocol OnlyColon : SomeBase\<newline>{ }'' =
     '' protocol OnlyColon : SomeBase\<newline>{ }''"
proof (intro conjI)
  show "\<not> sublist (current D) s \<longrightarrow> replace (current D) (new D) s = s"
    by (simp add: replace_absent [OF current_not_Nil])
  show "(\<forall>d\<in>set (data str). \<not> sublist (current d) str) \<longrightarrow> rewriteProtocols str = str"
    by (simp add: rewriteProtocols_def substitute_absent)
qed (simp_all add: rewriteProtocols_def data_def allProtocols_def moreProtocols_def
      fromkeys_def current_def new_def)

theorem C2_counterexample:
  "rewriteProtocols '' protocol OnlyColon : SomeBase { }'' \<noteq>
     '' protocol OnlyColon : SomeBase { }''"
  by (simp add: rewriteProtocols_def data_def allProtocols_def moreProtocols_def
      fromkeys_def current_def new_def)

theorem C2_witness:
  "\<not> sublist (current ''OnlyColon'') '' protocol OnlyColon : SomeBase\<newline>{ }'' \<and>
   replace (current ''OnlyColon'') (new ''OnlyColon'') '' protocol OnlyColon : SomeBase\<newline>{ }'' =
     '' protocol OnlyColon : SomeBase\<newline>{ }'' \<and>
   rewriteProtocols '' protocol OnlyColon : SomeBase\<newline>{ }'' =
     '' protocol OnlyColon : SomeBase\<newline>{ }''"
proof -
  have n: "\<not> sublist (current ''OnlyColon'') '' protocol OnlyColon : SomeBase\<newline>{ }''"
    by (simp add: current_def sublist_Cons_right)
  have d: "data '' protocol OnlyColon : SomeBase\<newline>{ }'' = [''OnlyColon'']"
    by (simp add: data_def allProtocols_def moreProtocols_def fromkeys_def)
  from n d have
    "\<forall>d\<in>set (data '' protocol OnlyColon : SomeBase\<newline>{ }'').
       \<not> sublist (current d) '' protocol OnlyColon : SomeBase\<newline>{ }''"
    by simp
  with n show ?thesis
    using C2_no_literal_form_no_substitution
      [of "''OnlyColon''" "'' protocol OnlyColon : SomeBase\<newline>{ }''"
          "'' protocol OnlyColon : SomeBase\<newline>{ }''"]
    by blast
qed

text \<open>
  C5 (as amended): a name extracted by the first pattern does not contain the literal
  \<open>space, brace\<close>, and a name extracted by the second pattern does not contain
  \<open>space, colon, space\<close>: each capture stops at the first occurrence of its own
  terminator. A name of the first pattern can contain the colon form and a name of the
  second the brace form.
\<close>

theorem C5_names_stop_at_own_terminator:
  "(\<forall>n\<in>set (allProtocols str). \<not> sublist '' {'' n) \<and>
   (\<forall>n\<in>set (moreProtocols str). \<not> sublist '' : '' n)"
  using findall_sound [of _ "'' {''" str] findall_sound [of _ "'' : ''" str]
  unfolding allProtocols_def moreProtocols_def by blast

theorem C5_counterexample:
  "''OnlyColon : SomeBase'' \<in> set (data '' protocol OnlyColon : SomeBase { }'') \<and>
   sublist '' : '' ''OnlyColon : SomeBase'' \<and>
   ''X { y'' \<in> set (data '' protocol X { y : Z'') \<and> sublist '' {'' ''X { y''"
  by (simp add: data_def allProtocols_def moreProtocols_def fromkeys_def sublist_Cons_right)

theorem C5_witness:
  "allProtocols '' protocol OnlyColon : SomeBase { }'' = [''OnlyColon : SomeBase''] \<and>
   \<not> sublist '' {'' ''OnlyColon : SomeBase'' \<and>
   moreProtocols '' protocol OnlyColon : SomeBase { }'' = [''OnlyColon''] \<and>
   \<not> sublist '' : '' ''OnlyColon''"
proof -
  have a: "allProtocols '' protocol OnlyColon : SomeBase { }'' = [''OnlyColon : SomeBase'']"
    and m: "moreProtocols '' protocol OnlyColon : SomeBase { }'' = [''OnlyColon'']"
    by (simp_all add: allProtocols_def moreProtocols_def)
  from C5_names_stop_at_own_terminator [of "'' protocol OnlyColon : SomeBase { }''"]
  show ?thesis unfolding a m by simp
qed

subsection \<open>Changes, errors and the name list\<close>

lemma replace_grows:
  assumes "old \<noteq> []" and "length old < length rep" and "sublist old s"
  shows "length s < length (replace old rep s)"
proof -
  from leftmost_occurrence [OF assms(1,3)] obtain a b
    where s: "s = a @ old @ b" and lm: "\<not> sublist old (a @ butlast old)" by blast
  from assms(2) have "length b \<le> length (replace old rep b)"
    by (intro replace_length_le) simp
  with assms(2) show ?thesis
    unfolding s by (simp add: replace_leftmost [OF assms(1) lm])
qed

lemma replace_changes_iff:
  "replace (current d) (new d) s = s \<longleftrightarrow> \<not> sublist (current d) s"
proof
  assume e: "replace (current d) (new d) s = s"
  show "\<not> sublist (current d) s"
  proof
    assume "sublist (current d) s"
    with replace_grows [OF current_not_Nil current_shorter]
    have "length s < length (replace (current d) (new d) s)" .
    with e show False by simp
  qed
next
  assume "\<not> sublist (current d) s"
  then show "replace (current d) (new d) s = s"
    by (simp add: replace_absent [OF current_not_Nil])
qed

lemma main_returns:
  "contents fs ''SwiftUI.swift'' = Some str \<Longrightarrow> appendable fs ''tempData.txt'' \<Longrightarrow>
     \<exists>fs'. main fs = Inr (rewriteProtocols str, fs')"
  by (simp add: main_def Let_def)

lemma findall_empty:
  assumes "\<not> (\<exists>n. CHR 0x0A \<notin> set n \<and> sublist ('' protocol '' @ n @ t) s)"
  shows "findall t s = []"
proof (rule ccontr)
  assume "findall t s \<noteq> []"
  then obtain n where "n \<in> set (findall t s)" by (cases "findall t s") auto
  from findall_sound [OF this] assms show False by blast
qed

lemma lazy_until_line_break:
  assumes "t \<noteq> []" and "CHR 0x0A \<notin> set t"
  shows "\<not> sublist t u \<Longrightarrow> lazy_until t (u @ CHR 0x0A # v) = None"
proof (induction u)
  case Nil
  from assms have "\<not> prefix t (CHR 0x0A # v)" by (cases t) auto
  then show ?case by simp
next
  case (Cons x u)
  from Cons.prems have np: "\<not> prefix t (x # u)" and ns: "\<not> sublist t u"
    by (auto simp: sublist_Cons_right)
  have "\<not> prefix t ((x # u) @ CHR 0x0A # v)"
    using prefix_stops_before [OF assms(2)] np by blast
  with Cons.IH [OF ns] show ?case by simp
qed

lemma insert_keys_keep_first:
  "insert_keys d ks = d @ keep_first (filter (\<lambda>k. k \<notin> set d) ks)"
proof (induction ks arbitrary: d)
  case Nil
  show ?case by simp
next
  case (Cons k ks)
  show ?case
  proof (cases "k \<in> set d")
    case True
    with Cons [of d] show ?thesis by simp
  next
    case False
    have "filter (\<lambda>y. y \<notin> set (d @ [k])) ks = filter (\<lambda>y. y \<noteq> k) (filter (\<lambda>y. y \<notin> set d) ks)"
      by (auto intro: filter_cong)
    with False Cons [of "d @ [k]"] show ?thesis by simp
  qed
qed

text \<open>
  C6 (as amended): an empty or blank name is processed like every other name and is no
  error. Its rule changes the text exactly when \<open>protocol D {\<close> occurs in it, and for a
  name of the first pattern that literal occurs in the input: the empty name comes from
  \<open>protocol\<close>, two spaces, brace, and this very text is rewritten.
\<close>

theorem C6_empty_names_are_processed:
  "(replace (current d) (new d) s = s \<longleftrightarrow> \<not> sublist (current d) s) \<and>
   (d \<in> set (allProtocols str) \<longrightarrow> sublist (current d) str) \<and>
   data '' protocol  {'' = [[]] \<and>
   rewriteProtocols '' protocol  {'' = '' protocol { }\<newline>extension  {'' \<and>
   data '' protocol    {'' = [''  ''] \<and>
   rewriteProtocols '' protocol    {'' = '' protocol   { }\<newline>extension    {'' \<and>
   (contents fs ''SwiftUI.swift'' = Some str \<longrightarrow> appendable fs ''tempData.txt'' \<longrightarrow>
      (\<exists>fs'. main fs = Inr (rewriteProtocols str, fs')))"
proof (intro conjI)
  show "replace (current d) (new d) s = s \<longleftrightarrow> \<not> sublist (current d) s"
    by (rule replace_changes_iff)
  show "d \<in> set (allProtocols str) \<longrightarrow> sublist (current d) str"
    using findall_sound [of d "'' {''" str] by (simp add: allProtocols_def current_def)
  show "contents fs ''SwiftUI.swift'' = Some str \<longrightarrow> appendable fs ''tempData.txt'' \<longrightarrow>
      (\<exists>fs'. main fs = Inr (rewriteProtocols str, fs'))"
    using main_returns by blast
qed (simp_all add: rewriteProtocols_def data_def allProtocols_def moreProtocols_def
      fromkeys_def current_def new_def)

theorem C6_counterexample:
  "[] \<in> set (data '' protocol  {'') \<and>
   rewriteProtocols '' protocol  {'' \<noteq> '' protocol  {''"
  by (simp add: rewriteProtocols_def data_def allProtocols_def moreProtocols_def
      fromkeys_def current_def new_def)

theorem C6_witness:
  "[] \<in> set (allProtocols '' protocol  {'') \<and>
   sublist (current []) '' protocol  {'' \<and>
   replace (current []) (new []) '' protocol  {'' \<noteq> '' protocol  {''"
proof -
  have a: "[] \<in> set (allProtocols '' protocol  {'')"
    by (simp add: allProtocols_def)
  with C6_empty_names_are_processed [of "[]" "'' protocol  {''" "'' protocol  {''"]
  have "sublist (current []) '' protocol  {''"
    and "replace (current []) (new []) '' protocol  {'' = '' protocol  {'' \<longleftrightarrow>
      \<not> sublist (current []) '' protocol  {''" by blast+
  with a show ?thesis by blast
qed

text \<open>
  C7: a text with no match of either pattern (no \<open>protocol\<close> between spaces followed on
  the same line by the terminator) has no names, is returned unchanged, and \<open>main\<close>
  returns it without an error.
\<close>

theorem C7_unmatched_input_unchanged:
  assumes "\<not> (\<exists>n. CHR 0x0A \<notin> set n \<and> sublist ('' protocol '' @ n @ '' {'') str)"
    and "\<not> (\<exists>n. CHR 0x0A \<notin> set n \<and> sublist ('' protocol '' @ n @ '' : '') str)"
  shows "data str = [] \<and> rewriteProtocols str = str \<and>
    (contents fs ''SwiftUI.swift'' = Some str \<and> appendable fs ''tempData.txt'' \<longrightarrow>
       (\<exists>fs'. main fs = Inr (str, fs')))"
proof -
  from assms have d: "data str = []"
    by (simp add: data_def allProtocols_def moreProtocols_def fromkeys_def findall_empty)
  then have r: "rewriteProtocols str = str" by (simp add: rewriteProtocols_def)
  from main_returns [of fs str] r
  have "contents fs ''SwiftUI.swift'' = Some str \<and> appendable fs ''tempData.txt'' \<longrightarrow>
       (\<exists>fs'. main fs = Inr (str, fs'))" by auto
  with d r show ?thesis by blast
qed

theorem C7_witness:
  "\<not> (\<exists>n. CHR 0x0A \<notin> set n \<and>
        sublist ('' protocol '' @ n @ '' {'') ''struct Foo { var x : Int } // protocol'') \<and>
   \<not> (\<exists>n. CHR 0x0A \<notin> set n \<and>
        sublist ('' protocol '' @ n @ '' : '') ''struct Foo { var x : Int } // protocol'') \<and>
   rewriteProtocols ''struct Foo { var x : Int } // protocol'' =
     ''struct Foo { var x : Int } // protocol''"
proof -
  have n: "\<not> sublist '' protocol '' ''struct Foo { var x : Int } // protocol''"
    by (simp add: sublist_Cons_right)
  have a: "\<not> (\<exists>n. CHR 0x0A \<notin> set n \<and>
        sublist ('' protocol '' @ n @ t) ''struct Foo { var x : Int } // protocol'')" for t
  proof
    assume "\<exists>n. CHR 0x0A \<notin> set n \<and>
        sublist ('' protocol '' @ n @ t) ''struct Foo { var x : Int } // protocol''"
    then obtain m where "sublist ('' protocol '' @ (m @ t)) ''struct Foo { var x : Int } // protocol''"
      by auto
    then have "sublist '' protocol '' ''struct Foo { var x : Int } // protocol''"
      unfolding sublist_def by (metis append.assoc)
    with n show False by simp
  qed
  from C7_unmatched_input_unchanged [OF a a] a show ?thesis by blast
qed

text \<open>
  C9: no extracted name contains a line feed. A capture that meets a line feed before
  its terminator fails, so a declaration with the line feed between the name and the
  terminator is neither extracted nor rewritten.
\<close>

theorem C9_names_hold_no_line_break:
  "(\<forall>d\<in>set (data str). CHR 0x0A \<notin> set d) \<and>
   (t \<noteq> [] \<and> CHR 0x0A \<notin> set t \<and> \<not> sublist t u \<longrightarrow> lazy_until t (u @ CHR 0x0A # v) = None) \<and>
   data '' protocol X\<newline>{'' = [] \<and>
   rewriteProtocols '' protocol X\<newline>{'' = '' protocol X\<newline>{'' \<and>
   data '' protocol X\<newline> : Y {'' = [] \<and>
   rewriteProtocols '' protocol X\<newline> : Y {'' = '' protocol X\<newline> : Y {''"
proof (intro conjI)
  show "\<forall>d\<in>set (data str). CHR 0x0A \<notin> set d"
    using data_no_newline by blast
  show "t \<noteq> [] \<and> CHR 0x0A \<notin> set t \<and> \<not> sublist t u \<longrightarrow> lazy_until t (u @ CHR 0x0A # v) = None"
    using lazy_until_line_break by blast
qed (simp_all add: rewriteProtocols_def data_def allProtocols_def moreProtocols_def
      fromkeys_def current_def new_def)

theorem C9_witness:
  "data '' protocol A : B {'' = [''A : B'', ''A''] \<and>
   CHR 0x0A \<notin> set ''A : B'' \<and> CHR 0x0A \<notin> set ''A'' \<and>
   '' {'' \<noteq> [] \<and> CHR 0x0A \<notin> set '' {'' \<and> \<not> sublist '' {'' ''X'' \<and>
   lazy_until '' {'' (''X'' @ CHR 0x0A # ''{'') = None"
proof -
  have d: "data '' protocol A : B {'' = [''A : B'', ''A'']"
    by (simp add: data_def allProtocols_def moreProtocols_def fromkeys_def)
  have h: "'' {'' \<noteq> [] \<and> CHR 0x0A \<notin> set '' {'' \<and> \<not> sublist '' {'' ''X''"
    by (simp add: sublist_Cons_right)
  from C9_names_hold_no_line_break [of "'' protocol A : B {''" "'' {''" "''X''" "''{''"] h
  have "\<forall>d\<in>set (data '' protocol A : B {''). CHR 0x0A \<notin> set d"
    and "lazy_until '' {'' (''X'' @ CHR 0x0A # ''{'') = None" by blast+
  with d h show ?thesis by simp
qed

text \<open>
  C3: the names the loop processes are the captures of the first pattern in document
  order, then those of the second, reduced to their first occurrences; they are
  distinct, so a name whose form appears three times is processed once.
\<close>

theorem C3_names_in_first_seen_order:
  "data str = keep_first (findall '' {'' str @ findall '' : '' str) \<and>
   distinct (data str) \<and>
   set (data str) = set (findall '' {'' str) \<union> set (findall '' : '' str) \<and>
   data '' protocol X { protocol X { protocol X {'' = [''X''] \<and>
   rewriteProtocols '' protocol X { protocol X { protocol X {'' =
     '' protocol X{ }\<newline>extension X { protocol X{ }\<newline>extension X { protocol X{ }\<newline>extension X {'' \<and>
   data '' protocol A {\<newline> protocol B : A {\<newline> protocol A : C {'' = [''A'', ''B : A'', ''A : C'', ''B'']"
proof (intro conjI)
  show "data str = keep_first (findall '' {'' str @ findall '' : '' str)"
    using insert_keys_keep_first [of "[]" "findall '' {'' str @ findall '' : '' str"]
    by (simp add: data_def fromkeys_def allProtocols_def moreProtocols_def)
  show "distinct (data str)"
    by (simp add: data_def fromkeys_def insert_keys_distinct)
  show "set (data str) = set (findall '' {'' str) \<union> set (findall '' : '' str)"
    by (simp add: data_set allProtocols_def moreProtocols_def)
qed (simp_all add: rewriteProtocols_def data_def allProtocols_def moreProtocols_def
      fromkeys_def current_def new_def)

subsection \<open>The substitution step\<close>

lemma join_Cons: "ps \<noteq> [] \<Longrightarrow> join sep (p # ps) = p @ sep @ join sep ps"
  by (cases ps) simp_all

lemma replace_pieces:
  assumes "old \<noteq> []"
  shows "\<exists>ps. s = join old ps \<and> replace old rep s = join rep ps \<and> ps \<noteq> [] \<and>
    (\<forall>p\<in>set ps. \<not> sublist old p) \<and>
    (\<forall>p\<in>set (butlast ps). \<not> sublist old (p @ butlast old))"
proof (induction s rule: length_induct)
  case (1 s)
  show ?case
  proof (cases "sublist old s")
    case False
    then have "s = join old [s] \<and> replace old rep s = join rep [s] \<and> [s] \<noteq> [] \<and>
        (\<forall>p\<in>set [s]. \<not> sublist old p) \<and>
        (\<forall>p\<in>set (butlast [s]). \<not> sublist old (p @ butlast old))"
      by (simp add: replace_absent [OF assms])
    then show ?thesis by blast
  next
    case True
    from leftmost_occurrence [OF assms True] obtain a b
      where s: "s = a @ old @ b" and lm: "\<not> sublist old (a @ butlast old)" by blast
    have "length b < length s" unfolding s using assms by simp
    with 1 obtain ps where ps: "b = join old ps" "replace old rep b = join rep ps" "ps \<noteq> []"
      "\<forall>p\<in>set ps. \<not> sublist old p"
      "\<forall>p\<in>set (butlast ps). \<not> sublist old (p @ butlast old)" by blast
    from lm have na: "\<not> sublist old a" by (auto simp: sublist_append)
    have "s = join old (a # ps)" unfolding s using ps(1,3) by (simp add: join_Cons)
    moreover have "replace old rep s = join rep (a # ps)"
      unfolding s using ps(2,3) by (simp add: replace_leftmost [OF assms lm] join_Cons)
    moreover have "\<forall>p\<in>set (a # ps). \<not> sublist old p" using na ps(4) by simp
    moreover have "\<forall>p\<in>set (butlast (a # ps)). \<not> sublist old (p @ butlast old)"
      using lm ps(3,5) by simp
    ultimately show ?thesis by blast
  qed
qed

text \<open>
  C1 (as amended): the rule for a name \<open>D\<close> replaces every occurrence of
  \<open>protocol D {\<close> in the current text, found from left to right. The text is a list
  of pieces joined by that literal; no piece contains the literal, and no piece but the
  last contains it even when the literal's own beginning is put behind the piece, so
  each separator is the leftmost occurrence in what is left of the text. The loop goes
  on with the same pieces joined by the replacement. Equally: a text without the literal
  is left as it is, and behind the leftmost occurrence the rest of the text is rewritten
  in the same way. The replacement has no space between the line feed and
  \<open>extension\<close>, so the sample input becomes
  \<open>foo protocol Sample{ }\<close>, line feed, \<open>extension Sample { bar }\<close>.
\<close>

theorem C1_every_occurrence_replaced:
  "(\<exists>ps. str = join (current D) ps \<and> (\<forall>p\<in>set ps. \<not> sublist (current D) p) \<and>
      (\<forall>p\<in>set (butlast ps). \<not> sublist (current D) (p @ butlast (current D))) \<and>
      substitute (D # rest) str = substitute rest (join (new D) ps)) \<and>
   (\<not> sublist (current D) (a @ butlast (current D)) \<longrightarrow>
      replace (current D) (new D) (a @ current D @ b) =
        a @ new D @ replace (current D) (new D) b) \<and>
   (\<not> sublist (current D) s \<longrightarrow> replace (current D) (new D) s = s) \<and>
   new D = '' protocol '' @ D @ ''{ }\<newline>extension '' @ D @ '' {'' \<and>
   rewriteProtocols ''foo protocol Sample { bar }'' =
     ''foo protocol Sample{ }\<newline>extension Sample { bar }''"
proof (intro conjI)
  from replace_pieces [OF current_not_Nil, of str D "new D"]
  obtain ps where "str = join (current D) ps"
    "replace (current D) (new D) str = join (new D) ps"
    "\<forall>p\<in>set ps. \<not> sublist (current D) p"
    "\<forall>p\<in>set (butlast ps). \<not> sublist (current D) (p @ butlast (current D))" by blast
  then have "str = join (current D) ps \<and> (\<forall>p\<in>set ps. \<not> sublist (current D) p) \<and>
      (\<forall>p\<in>set (butlast ps). \<not> sublist (current D) (p @ butlast (current D))) \<and>
      substitute (D # rest) str = substitute rest (join (new D) ps)" by simp
  then show "\<exists>ps. str = join (current D) ps \<and> (\<forall>p\<in>set ps. \<not> sublist (current D) p) \<and>
      (\<forall>p\<in>set (butlast ps). \<not> sublist (current D) (p @ butlast (current D))) \<and>
      substitute (D # rest) str = substitute rest (join (new D) ps)" ..
  show "\<not> sublist (current D) (a @ butlast (current D)) \<longrightarrow>
      replace (current D) (new D) (a @ current D @ b) =
        a @ new D @ replace (current D) (new D) b"
    using replace_leftmost [OF current_not_Nil] by blast
  show "\<not> sublist (current D) s \<longrightarrow> replace (current D) (new D) s = s"
    using replace_absent [OF current_not_Nil] by blast
  show "new D = '' protocol '' @ D @ ''{ }\<newline>extension '' @ D @ '' {''"
    by (simp add: new_def)
  show "rewriteProtocols ''foo protocol Sample { bar }'' =
     ''foo protocol Sample{ }\<newline>extension Sample { bar }''"
    by (simp add: rewriteProtocols_def data_def allProtocols_def moreProtocols_def
        fromkeys_def current_def new_def)
qed

theorem C1_counterexample:
  "rewriteProtocols ''foo protocol Sample { bar }'' \<noteq>
     ''foo protocol Sample{ }\<newline> extension Sample { bar }''"
  by (simp add: rewriteProtocols_def data_def allProtocols_def moreProtocols_def
      fromkeys_def current_def new_def)

theorem C1_witness:
  "\<not> sublist (current ''X { protocol X'') ([] @ butlast (current ''X { protocol X'')) \<and>
   \<not> sublist (current ''X { protocol X'') '' protocol X {'' \<and>
   replace (current ''X { protocol X'') (new ''X { protocol X'')
     '' protocol X { protocol X { protocol X {'' =
     new ''X { protocol X'' @ '' protocol X {'' \<and>
   \<not> sublist (current ''Sample'') (''foo'' @ butlast (current ''Sample'')) \<and>
   \<not> sublist (current ''Sample'') '' bar }'' \<and>
   substitute [''Sample''] ''foo protocol Sample { bar }'' =
     ''foo'' @ new ''Sample'' @ '' bar }''"
proof -
  let ?X = "''X { protocol X''"
  have x1: "\<not> sublist (current ?X) ([] @ butlast (current ?X))"
    by (simp add: current_def sublist_Cons_right)
  have x2: "\<not> sublist (current ?X) '' protocol X {''"
    by (simp add: current_def sublist_Cons_right)
  have xe: "[] @ current ?X @ '' protocol X {'' = '' protocol X { protocol X { protocol X {''"
    by (simp add: current_def)
  have s1: "\<not> sublist (current ''Sample'') (''foo'' @ butlast (current ''Sample''))"
    by (simp add: current_def sublist_Cons_right)
  have s2: "\<not> sublist (current ''Sample'') '' bar }''"
    by (simp add: current_def sublist_Cons_right)
  have se: "''foo'' @ current ''Sample'' @ '' bar }'' = ''foo protocol Sample { bar }''"
    by (simp add: current_def)
  from C1_every_occurrence_replaced [of _ ?X _ "[]" "'' protocol X {''" "'' protocol X {''"] x1 x2
  have "replace (current ?X) (new ?X) ([] @ current ?X @ '' protocol X {'') =
      [] @ new ?X @ '' protocol X {''"
    by (metis (no_types, lifting))
  then have rx: "replace (current ?X) (new ?X) '' protocol X { protocol X { protocol X {'' =
      new ?X @ '' protocol X {''"
    unfolding xe by simp
  from C1_every_occurrence_replaced [of _ "''Sample''" _ "''foo''" "'' bar }''" "'' bar }''"] s1 s2
  have "replace (current ''Sample'') (new ''Sample'') (''foo'' @ current ''Sample'' @ '' bar }'') =
      ''foo'' @ new ''Sample'' @ '' bar }''"
    by (metis (no_types, lifting))
  then have "substitute [''Sample''] ''foo protocol Sample { bar }'' =
     ''foo'' @ new ''Sample'' @ '' bar }''"
    unfolding se by simp
  with x1 x2 rx s1 s2 show ?thesis by blast
qed

subsection \<open>Written forms under later rules\<close>

lemma replace_before_tail:
  assumes "old \<noteq> []"
  shows "(\<And>u v. x @ z = u @ old @ v \<Longrightarrow> length u + length old \<le> length x) \<Longrightarrow>
    replace old rep (x @ z) = replace old rep x @ z"
proof (induction x rule: length_induct)
  case (1 x)
  note inside = "1.prems"
  show ?case
  proof (cases x)
    case Nil
    have "\<not> sublist old z"
    proof
      assume "sublist old z"
      then obtain u v where "z = u @ old @ v" by (auto simp: sublist_def)
      with inside [of u v] Nil assms show False by simp
    qed
    with Nil assms show ?thesis by (simp add: replace_absent)
  next
    case (Cons c cs)
    show ?thesis
    proof (cases "prefix old (x @ z)")
      case True
      then obtain v where v: "x @ z = [] @ old @ v" by (auto simp: prefix_def)
      from inside [OF v] have le: "length old \<le> length x" by simp
      with True have px: "prefix old x" by (rule prefix_within)
      let ?x' = "drop (length old) x"
      have dx: "drop (length old) (x @ z) = ?x' @ z" using le by simp
      have "length ?x' < length x" using assms Cons by simp
      moreover have "length u + length old \<le> length ?x'" if "?x' @ z = u @ old @ v'" for u v'
      proof -
        have "x @ z = (take (length old) x @ u) @ old @ v'"
          using that by (metis append.assoc append_take_drop_id)
        from inside [OF this] le show ?thesis by simp
      qed
      ultimately have "replace old rep (?x' @ z) = replace old rep ?x' @ z"
        using "1.IH" by blast
      with True px assms Cons dx show ?thesis by simp
    next
      case False
      then have nx: "\<not> prefix old x" by (auto intro: prefix_prefix)
      have "length u + length old \<le> length cs" if "cs @ z = u @ old @ v'" for u v'
      proof -
        from that Cons have "x @ z = (c # u) @ old @ v'" by simp
        from inside [OF this] Cons show ?thesis by simp
      qed
      moreover have "length cs < length x" using Cons by simp
      ultimately have "replace old rep (cs @ z) = replace old rep cs @ z"
        using "1.IH" by blast
      with False nx assms Cons show ?thesis by simp
    qed
  qed
qed

lemma replace_line_split:
  assumes "old \<noteq> []" and "c \<notin> set old"
  shows "replace old rep (u @ c # v) = replace old rep u @ c # replace old rep v"
proof (induction u rule: length_induct)
  case (1 u)
  show ?case
  proof (cases u)
    case Nil
    from assms have "\<not> prefix old (c # v)" by (cases old) auto
    with Nil assms show ?thesis by simp
  next
    case (Cons a u')
    show ?thesis
    proof (cases "prefix old (u @ c # v)")
      case True
      with assms(2) have pu: "prefix old u" by (rule prefix_stops_before)
      then have le: "length old \<le> length u" by (rule prefix_length_le)
      let ?u' = "drop (length old) u"
      have "length ?u' < length u" using assms(1) Cons by simp
      with 1 have "replace old rep (?u' @ c # v) = replace old rep ?u' @ c # replace old rep v"
        by blast
      moreover have "drop (length old) (u @ c # v) = ?u' @ c # v" using le by simp
      ultimately show ?thesis using True pu assms(1) Cons by simp
    next
      case False
      then have nu: "\<not> prefix old u" by (auto intro: prefix_prefix)
      have "length u' < length u" using Cons by simp
      with 1 have "replace old rep (u' @ c # v) = replace old rep u' @ c # replace old rep v"
        by blast
      with False nu assms(1) Cons show ?thesis by simp
    qed
  qed
qed

lemma replace_behind:
  assumes "prefix p old" and "c \<notin> set p" and "\<not> sublist p u"
  shows "replace old rep (u @ c # y) = u @ c # replace old rep y"
  using assms(3)
proof (induction u)
  case Nil
  from Nil have "p \<noteq> []" by auto
  with assms(1) obtain x p' q' where p: "p = x # p'" and q: "old = x # q'"
    by (cases p; cases old) auto
  from p assms(2) have "x \<noteq> c" by auto
  with q show ?case by simp
next
  case (Cons x u)
  from Cons.prems have np: "\<not> prefix p (x # u)" and ns: "\<not> sublist p u"
    by (auto simp: sublist_Cons_right)
  from np have "p \<noteq> []" by auto
  with assms(1) have o: "old \<noteq> []" by auto
  have "\<not> prefix old ((x # u) @ c # y)"
  proof
    assume "prefix old ((x # u) @ c # y)"
    with assms(1) have "prefix p ((x # u) @ c # y)" by (rule prefix_order.trans)
    with assms(2) have "prefix p (x # u)" by (rule prefix_stops_before)
    with np show False by simp
  qed
  with o Cons.IH [OF ns] show ?case by simp
qed

lemma substitute_append: "substitute (xs @ ys) s = substitute ys (substitute xs s)"
  by (induction xs arbitrary: s) simp_all

lemma keyword_split:
  "'' protocol '' = k @ CHR '' '' # r \<Longrightarrow>
     (k = [] \<and> r = ''protocol '') \<or> (k = '' protocol'' \<and> r = [])"
  by (auto simp: Cons_eq_append_conv)

lemma no_brace_in_written:
  assumes "plain_name D" and "\<not> sublist '' {'' D"
  shows "\<not> sublist '' {'' (D @ ''{ }'')"
proof
  assume "sublist '' {'' (D @ ''{ }'')"
  then have "sublist ([] @ [CHR '' '', CHR ''{'']) (D @ [CHR ''{'', CHR '' '', CHR ''}''])"
    by simp
  moreover from assms(1) have "last D \<noteq> CHR '' ''" by (simp add: plain_name_def)
  ultimately have "sublist ([] @ [CHR '' '', CHR ''{'']) D" by (rule sublist_before_brace)
  with assms(2) show False by simp
qed

lemma plain_name_not_behind_keyword:
  assumes "plain_name e"
  shows "x @ '' protocol '' \<noteq> u @ '' protocol '' @ e @ '' ''"
proof
  assume eq: "x @ '' protocol '' = u @ '' protocol '' @ e @ '' ''"
  define w where "w = '' '' @ e @ '' ''"
  from assms have nw: "\<not> sublist '' protocol '' w"
    by (simp add: plain_name_def w_def)
  have "u @ '' protocol '' @ e @ '' '' = (u @ '' protocol'') @ w" by (simp add: w_def)
  with eq have "suffix '' protocol '' ((u @ '' protocol'') @ w)"
    by (metis suffixI)
  then have "suffix '' protocol '' w \<or>
      (\<exists>k. '' protocol '' = k @ w \<and> suffix k (u @ '' protocol''))"
    by (simp only: suffix_append)
  then show False
  proof
    assume "suffix '' protocol '' w"
    with nw show False by auto
  next
    assume "\<exists>k. '' protocol '' = k @ w \<and> suffix k (u @ '' protocol'')"
    then obtain k where "'' protocol '' = k @ CHR '' '' # (e @ '' '')" by (auto simp: w_def)
    from keyword_split [OF this] have "k = []" by auto
    with \<open>'' protocol '' = k @ CHR '' '' # (e @ '' '')\<close> have "'' protocol '' = w"
      by (simp add: w_def)
    with nw show False by simp
  qed
qed

lemma occurrence_ends_before_written:
  assumes pd: "plain_name D" and nb: "\<not> sublist '' {'' D"
    and cs: "hd D \<noteq> CHR ''{'' \<or> plain_name e"
    and eq: "x @ '' protocol '' @ D @ ''{ }'' = u @ current e @ v"
  shows "length u + length (current e) \<le> length x"
proof (rule ccontr)
  assume "\<not> length u + length (current e) \<le> length x"
  then have long: "length x < length (u @ current e)" by simp
  define z where "z = '' protocol '' @ D @ ''{ }''"
  from eq have "x @ z = (u @ current e) @ v" by (simp add: z_def)
  define w where "w = u @ current e"
  from \<open>x @ z = (u @ current e) @ v\<close> have xzw: "x @ z = w @ v" by (simp add: w_def)
  from long have lw: "length x < length w" by (simp add: w_def)
  define t where "t = drop (length x) w"
  from xzw have "take (length x) (x @ z) = take (length x) (w @ v)" by simp
  with lw have "x = take (length x) w" by simp
  then have "x @ t = w" unfolding t_def by (metis append_take_drop_id)
  then have t1': "x @ t = u @ current e" by (simp add: w_def)
  from xzw have "drop (length x) (x @ z) = drop (length x) (w @ v)" by simp
  with lw have t2': "z = t @ v" unfolding t_def by simp
  note t = t1' t2'
  from t(1) long have tn: "t \<noteq> []" by auto
  have ce: "u @ current e = (u @ '' protocol '' @ e @ '' '') @ [CHR ''{'']"
    by (simp add: current_def)
  from tn have "x @ butlast t @ [last t] = (u @ '' protocol '' @ e @ '' '') @ [CHR ''{'']"
    using t(1) ce by simp
  then have "(x @ butlast t) @ [last t] = (u @ '' protocol '' @ e @ '' '') @ [CHR ''{'']"
    by simp
  then have t1: "x @ butlast t = u @ '' protocol '' @ e @ '' ''" and lt: "last t = CHR ''{''"
    by (simp_all only: append1_eq_conv)
  define t1 where "t1 = butlast t"
  from tn lt have tt: "t = t1 @ [CHR ''{'']" unfolding t1_def by (metis append_butlast_last_id)
  have zs: "z = CHR '' '' # (''protocol '' @ D @ ''{ }'')" by (simp add: z_def)
  have t1n: "t1 \<noteq> []"
  proof
    assume "t1 = []"
    with tt t(2) zs show False by simp
  qed
  from t1 have "(x @ butlast t1) @ [last t1] = (u @ '' protocol '' @ e) @ [CHR '' '']"
    using t1n unfolding t1_def [symmetric] by simp
  then have t2: "x @ butlast t1 = u @ '' protocol '' @ e" and lt1: "last t1 = CHR '' ''"
    by (simp_all only: append1_eq_conv)
  define t2 where "t2 = butlast t1"
  from t1n lt1 have t1t: "t1 = t2 @ [CHR '' '']" unfolding t2_def by (metis append_butlast_last_id)
  define P where "P = '' protocol ''"
  define W where "W = D @ ''{ }''"
  define R where "R = CHR '' '' # CHR ''{'' # v"
  from t(2) tt t1t have "t2 @ R = P @ W"
    by (simp add: z_def P_def W_def R_def)
  then have "\<exists>k. t2 = P @ k \<and> k @ R = W \<or> t2 @ k = P \<and> R = k @ W"
    by (simp only: append_eq_append_conv2)
  then obtain k where k: "(t2 = '' protocol '' @ k \<and> k @ CHR '' '' # CHR ''{'' # v = D @ ''{ }'') \<or>
      (t2 @ k = '' protocol '' \<and> CHR '' '' # CHR ''{'' # v = k @ D @ ''{ }'')"
    unfolding P_def W_def R_def by blast
  have nbw: "\<not> sublist '' {'' (D @ ''{ }'')" using pd nb by (rule no_brace_in_written)
  from pd have dn: "D \<noteq> []" by (simp add: plain_name_def)
  from k show False
  proof
    assume "t2 = '' protocol '' @ k \<and> k @ CHR '' '' # CHR ''{'' # v = D @ ''{ }''"
    then have "D @ ''{ }'' = k @ '' {'' @ v" by simp
    then have "sublist '' {'' (D @ ''{ }'')" by (simp only: sublist_appendI)
    with nbw show False by simp
  next
    assume a: "t2 @ k = '' protocol '' \<and> CHR '' '' # CHR ''{'' # v = k @ D @ ''{ }''"
    show False
    proof (cases k)
      case Nil
      with a have "D @ ''{ }'' = [] @ '' {'' @ v" by simp
      then have "sublist '' {'' (D @ ''{ }'')" by (simp only: sublist_appendI)
      with nbw show False by simp
    next
      case (Cons c k')
      with a have c: "c = CHR '' ''" and r: "CHR ''{'' # v = k' @ D @ ''{ }''" by simp_all
      have k'n: "k' = []"
      proof (rule ccontr)
        assume "k' \<noteq> []"
        with r have "hd k' = CHR ''{''" by (cases k') auto
        with \<open>k' \<noteq> []\<close> have "CHR ''{'' \<in> set k'" by (metis hd_in_set)
        with Cons have "CHR ''{'' \<in> set (t2 @ k)" by simp
        with a show False by simp
      qed
      with r dn have hd: "hd D = CHR ''{''" by (cases D) auto
      from a Cons c k'n have tp: "t2 @ '' '' = '' protocol ''" by simp
      from hd cs have pe: "plain_name e" by simp
      from t2 have "x @ t2 @ '' '' = u @ '' protocol '' @ e @ '' ''"
        unfolding t2_def [symmetric] by simp
      with tp have "x @ '' protocol '' = u @ '' protocol '' @ e @ '' ''" by simp
      with plain_name_not_behind_keyword [OF pe] show False by blast
    qed
  qed
qed

lemma replace_around_new:
  assumes pd: "plain_name D" and nb: "\<not> sublist '' {'' D"
    and cs: "hd D \<noteq> CHR ''{'' \<or> plain_name e"
    and ne: "CHR 0x0A \<notin> set e"
  shows "replace (current e) (new e) (x @ new D @ y) =
    replace (current e) (new e) x @ new D @ replace (current e) (new e) y"
proof -
  let ?r = "replace (current e) (new e)"
  define l where "l = '' protocol '' @ D @ ''{ }''"
  define r where "r = ''extension '' @ D @ '' ''"
  have nd: "new D = l @ CHR 0x0A # r @ [CHR ''{'']" by (simp add: new_def l_def r_def)
  have "?r (x @ new D @ y) = ?r ((x @ l) @ CHR 0x0A # (r @ CHR ''{'' # y))"
    by (simp add: nd)
  also have "\<dots> = ?r (x @ l) @ CHR 0x0A # ?r (r @ CHR ''{'' # y)"
    using current_not_Nil current_no_newline [OF ne] by (rule replace_line_split)
  also have "?r (x @ l) = ?r x @ l"
    using current_not_Nil occurrence_ends_before_written [OF pd nb cs]
    unfolding l_def by (rule replace_before_tail)
  also have "?r (r @ CHR ''{'' # y) = r @ CHR ''{'' # ?r y"
  proof (rule replace_behind)
    show "prefix '' protocol '' (current e)" by (simp add: current_def)
    show "CHR ''{'' \<notin> set '' protocol ''" by simp
    show "\<not> sublist '' protocol '' r" unfolding r_def using pd by (rule plain_name_extension)
  qed
  finally show ?thesis by (simp add: nd)
qed

lemma replace_join_new:
  assumes "plain_name D" and "\<not> sublist '' {'' D"
    and "hd D \<noteq> CHR ''{'' \<or> plain_name e" and "CHR 0x0A \<notin> set e"
  shows "replace (current e) (new e) (join (new D) ps) =
    join (new D) (map (replace (current e) (new e)) ps)"
proof (induction "new D" ps rule: join.induct)
  case 1
  show ?case by (simp add: current_not_Nil)
next
  case (2 p)
  show ?case by simp
next
  case (3 p q ps)
  then show ?case by (simp add: replace_around_new [OF assms])
qed

lemma substitute_join_new:
  assumes "plain_name D" and "\<not> sublist '' {'' D"
  shows "\<forall>e\<in>set es. (hd D \<noteq> CHR ''{'' \<or> plain_name e) \<and> CHR 0x0A \<notin> set e \<Longrightarrow>
    substitute es (join (new D) ps) = join (new D) (map (substitute es) ps)"
proof (induction es arbitrary: ps)
  case Nil
  show ?case by simp
next
  case (Cons e es)
  from Cons.prems have e: "hd D \<noteq> CHR ''{'' \<or> plain_name e" "CHR 0x0A \<notin> set e" by simp_all
  from Cons.prems have "\<forall>e\<in>set es. (hd D \<noteq> CHR ''{'' \<or> plain_name e) \<and> CHR 0x0A \<notin> set e"
    by simp
  from Cons.IH [OF this] show ?case
    by (simp add: replace_join_new [OF assms e] comp_def)
qed

lemma lazy_until_complete:
  assumes "t \<noteq> []"
  shows "CHR 0x0A \<notin> set n \<Longrightarrow> \<not> sublist t (n @ butlast t) \<Longrightarrow>
    lazy_until t (n @ t @ r) = Some (n, r)"
proof (induction n)
  case Nil
  from assms obtain c cs where cc: "t @ r = c # cs" by (cases t) auto
  have "prefix t (c # cs)" unfolding cc [symmetric] by simp
  moreover have "drop (length t) (c # cs) = r" unfolding cc [symmetric] by simp
  ultimately have "lazy_until t (c # cs) = Some ([], r)" by simp
  then show ?case unfolding cc [symmetric] by simp
next
  case (Cons a n)
  from Cons.prems(2) have np: "\<not> prefix t (a # n @ butlast t)"
    and ns: "\<not> sublist t (n @ butlast t)"
    by (auto simp: sublist_Cons_right)
  have "\<not> prefix t (a # n @ t @ r)"
  proof
    assume p: "prefix t (a # n @ t @ r)"
    have e: "a # n @ t @ r = (a # n @ butlast t) @ (last t # r)"
      by (simp add: butlast_last_append [OF assms])
    have l: "length t \<le> length (a # n @ butlast t)" by simp
    from p have "prefix t ((a # n @ butlast t) @ (last t # r))" by (simp only: e)
    from this l have "prefix t (a # n @ butlast t)" by (rule prefix_within)
    with np show False by simp
  qed
  moreover from Cons.prems(1) have "a \<noteq> CHR 0x0A" "CHR 0x0A \<notin> set n" by auto
  ultimately show ?case using Cons.IH ns by simp
qed

lemma plain_name_keyword:
  "plain_name m \<Longrightarrow> \<not> sublist '' protocol '' (''protocol '' @ m @ '' '')"
  by (simp add: plain_name_def sublist_Cons_right)

lemma findall_complete:
  "t = '' {'' \<Longrightarrow> sublist ('' protocol '' @ n @ t) s \<Longrightarrow> \<not> sublist t n \<Longrightarrow>
   CHR 0x0A \<notin> set n \<Longrightarrow> \<forall>m\<in>set (findall t s). plain_name m \<Longrightarrow> n \<in> set (findall t s)"
proof (induction t s rule: findall.induct)
  case (1 t)
  then show ?case by simp
next
  case (2 t c cs)
  define P where "P = '' protocol ''"
  have eq: "findall t (c # cs) =
     (if prefix P (c # cs)
      then (case lazy_until t (drop (length P) (c # cs)) of
              Some (n, r) \<Rightarrow> n # findall t r
            | None \<Rightarrow> findall t cs)
      else findall t cs)"
    unfolding P_def by (rule findall.simps(2))
  note IH = "2.IH" [folded P_def]
  note t = \<open>t = '' {''\<close>
  from "2.prems"(2) have occ: "sublist (P @ n @ t) (c # cs)" by (simp add: P_def)
  note nt = \<open>\<not> sublist t n\<close> and nl = \<open>CHR 0x0A \<notin> set n\<close>
  note pl = \<open>\<forall>m\<in>set (findall t (c # cs)). plain_name m\<close>
  have tn: "t \<noteq> []" using t by simp
  have nb: "\<not> sublist t (n @ butlast t)"
  proof
    assume "sublist t (n @ butlast t)"
    then have "sublist ([] @ [CHR '' '', CHR ''{'']) (n @ [CHR '' ''])" using t by simp
    then have "sublist ([] @ [CHR '' '', CHR ''{'']) n"
      using sublist_drop_last [of "[CHR '' '']" "CHR ''{''" n "CHR '' ''"] by simp
    with nt t show False by simp
  qed
  have here: "lazy_until t (drop (length P) (c # cs)) = Some (n, r)"
    if "c # cs = (P @ n @ t) @ r" for r
  proof -
    from that have "drop (length P) (c # cs) = n @ t @ r" by simp
    with lazy_until_complete [OF tn nl nb] show ?thesis by simp
  qed
  show ?case
  proof (cases "prefix P (c # cs)")
    case False
    have "\<not> prefix (P @ n @ t) (c # cs)"
    proof
      assume "prefix (P @ n @ t) (c # cs)"
      then have "prefix P (c # cs)" by (rule append_prefixD)
      with False show False by simp
    qed
    with occ have "sublist (P @ n @ t) cs" by (simp only: sublist_Cons_right) simp
    moreover from pl eq False have "\<forall>m\<in>set (findall t cs). plain_name m" by simp
    ultimately have "n \<in> set (findall t cs)"
      using IH(3) [OF False t] nt nl unfolding P_def by blast
    with eq False show ?thesis by simp
  next
    case True
    show ?thesis
    proof (cases "lazy_until t (drop (length P) (c # cs))")
      case None
      have "\<not> prefix (P @ n @ t) (c # cs)"
      proof
        assume "prefix (P @ n @ t) (c # cs)"
        then obtain r where "c # cs = (P @ n @ t) @ r" by (auto simp: prefix_def)
        from here [OF this] None show False by simp
      qed
      with occ have "sublist (P @ n @ t) cs" by (simp only: sublist_Cons_right) simp
      moreover from pl eq True None have "\<forall>m\<in>set (findall t cs). plain_name m" by simp
      ultimately have "n \<in> set (findall t cs)"
        using IH(1) [OF True None t] nt nl unfolding P_def by blast
      with eq True None show ?thesis by simp
    next
      case (Some a)
      obtain m r where a: "a = (m, r)" by (cases a)
      from Some a have l: "lazy_until t (drop (length P) (c # cs)) = Some (m, r)" by simp
      from eq True l have fa: "findall t (c # cs) = m # findall t r" by simp
      show ?thesis
      proof (cases "prefix (P @ n @ t) (c # cs)")
        case p: True
        then obtain r' where "c # cs = (P @ n @ t) @ r'" by (auto simp: prefix_def)
        from here [OF this] l have "n = m" by simp
        with fa show ?thesis by simp
      next
        case np: False
        with occ have oc: "sublist (P @ n @ t) cs" by (simp only: sublist_Cons_right) simp
        from lazy_until_sound [OF l] have d: "drop (length P) (c # cs) = m @ t @ r" by blast
        from True obtain z where z: "c # cs = P @ z" by (auto simp: prefix_def)
        then have "drop (length P) (c # cs) = z" by simp
        with d z have "c # cs = P @ m @ t @ r" by simp
        then have cs: "cs = (''protocol '' @ m @ '' '') @ CHR ''{'' # r"
          using t by (simp add: P_def)
        from pl fa have pm: "plain_name m" by simp
        have "sublist (P @ n @ t) r"
        proof (rule sublist_behind)
          show "prefix P (P @ n @ t)" by simp
          show "CHR ''{'' \<notin> set P" by (simp add: P_def)
          show "\<not> sublist P (''protocol '' @ m @ '' '')"
            unfolding P_def using pm by (rule plain_name_keyword)
          show "sublist (P @ n @ t) ((''protocol '' @ m @ '' '') @ CHR ''{'' # r)"
            using oc unfolding cs .
        qed
        moreover from pl fa have "\<forall>m\<in>set (findall t r). plain_name m" by simp
        ultimately have "n \<in> set (findall t r)"
          using IH(2) [OF True Some a [symmetric] t] nt nl unfolding P_def by blast
        with fa show ?thesis by simp
      qed
    qed
  qed
qed

lemma insert_keys_extends: "\<exists>X. insert_keys d ks = d @ X"
proof (induction ks arbitrary: d)
  case Nil
  show ?case by simp
next
  case (Cons k ks)
  show ?case
  proof (cases "k \<in> set d")
    case True
    with Cons [of d] show ?thesis by simp
  next
    case False
    from Cons [of "d @ [k]"] obtain X where "insert_keys (d @ [k]) ks = (d @ [k]) @ X" ..
    with False have "insert_keys d (k # ks) = d @ (k # X)" by simp
    then show ?thesis ..
  qed
qed

lemma insert_keys_append: "insert_keys d (xs @ ys) = insert_keys (insert_keys d xs) ys"
  by (induction xs arbitrary: d) simp_all

lemma first_pattern_names_first:
  assumes "data str = before @ D # rest" and "D \<notin> set (allProtocols str)"
    and "a \<in> set (allProtocols str)"
  shows "a \<in> set before"
proof -
  define K where "K = insert_keys [] (allProtocols str)"
  have sk: "set K = set (allProtocols str)" by (simp add: K_def insert_keys_set)
  from insert_keys_extends [of K "moreProtocols str"] obtain X
    where "insert_keys K (moreProtocols str) = K @ X" ..
  then have "data str = K @ X"
    by (simp add: data_def fromkeys_def insert_keys_append K_def)
  with assms(1) have "before @ (D # rest) = K @ X" by simp
  then have "\<exists>us. before = K @ us \<and> us @ (D # rest) = X \<or>
      before @ us = K \<and> D # rest = us @ X"
    by (simp only: append_eq_append_conv2)
  then obtain us where us: "before = K @ us \<or> (before @ us = K \<and> D # rest = us @ X)"
    by blast
  then show ?thesis
  proof
    assume "before = K @ us"
    with sk assms(3) show ?thesis by simp
  next
    assume b: "before @ us = K \<and> D # rest = us @ X"
    show ?thesis
    proof (cases us)
      case Nil
      with b have "before = K" by simp
      with sk assms(3) show ?thesis by simp
    next
      case (Cons u us')
      with b have "D = u" by simp
      with b Cons have "K = before @ D # us'" by simp
      then have "D \<in> set K" by simp
      with sk assms(2) show ?thesis by simp
    qed
  qed
qed

lemma brace_name_absent:
  assumes ap: "\<forall>e\<in>set (data str). plain_name e"
    and ds: "data str = before @ D # rest" and br: "sublist '' {'' D"
  shows "\<not> sublist (current D) (substitute before str)"
proof
  assume oc: "sublist (current D) (substitute before str)"
  from ds have Din: "D \<in> set (data str)" by simp
  then have nlD: "CHR 0x0A \<notin> set D" by (rule data_no_newline)
  from ap ds have pb: "\<forall>e\<in>set before. plain_name e" by simp
  have "sublist (current D) str"
  proof (rule ccontr)
    assume "\<not> sublist (current D) str"
    with substitute_keeps_absent [OF nlD pb] oc show False by blast
  qed
  have "'' {'' \<noteq> []" by simp
  from leftmost_occurrence [OF this br] obtain a b
    where D: "D = a @ '' {'' @ b" and "\<not> sublist '' {'' (a @ butlast '' {'')" by blast
  then have na: "\<not> sublist '' {'' a" by (auto simp: sublist_append)
  from D nlD have nla: "CHR 0x0A \<notin> set a" by auto
  have cD: "current D = current a @ (b @ '' {'')"
    by (simp add: current_def D)
  have pre: "sublist (current a) w" if "sublist (current D) w" for w
  proof -
    from that obtain ps ss where "w = ps @ (current a @ (b @ '' {'')) @ ss"
      unfolding cD sublist_def by blast
    then have "w = ps @ current a @ ((b @ '' {'') @ ss)" by simp
    then show ?thesis unfolding sublist_def by blast
  qed
  from \<open>sublist (current D) str\<close> have "sublist (current a) str" by (rule pre)
  then have "sublist ('' protocol '' @ a @ '' {'') str" by (simp add: current_def)
  moreover have "\<forall>m\<in>set (findall '' {'' str). plain_name m"
    using ap by (simp add: data_set allProtocols_def)
  ultimately have "a \<in> set (findall '' {'' str)"
    using findall_complete [OF refl _ na nla] by blast
  then have ain: "a \<in> set (allProtocols str)" by (simp add: allProtocols_def)
  have "D \<notin> set (allProtocols str)"
  proof
    assume "D \<in> set (allProtocols str)"
    then have "D \<in> set (findall '' {'' str)" by (simp add: allProtocols_def)
    from findall_sound [OF this] br show False by simp
  qed
  from first_pattern_names_first [OF ds this ain] have ab: "a \<in> set before" .
  have "CHR 0x0A \<notin> set e" if "e \<in> set before" for e
  proof -
    from that ds have "e \<in> set (data str)" by simp
    then show ?thesis by (rule data_no_newline)
  qed
  with pb have "\<forall>e\<in>set before. plain_name e \<and> CHR 0x0A \<notin> set e" by simp
  from substitute_removes [OF this ab]
  have "\<not> sublist (current a) (substitute before str)" .
  moreover from oc have "sublist (current a) (substitute before str)" by (rule pre)
  ultimately show False by simp
qed

lemma written_forms_stay:
  assumes ds: "data str = before @ D # rest" and pd: "plain_name D"
    and cs: "(\<forall>e\<in>set (data str). plain_name e) \<or> \<not> sublist '' {'' ('' '' @ D)"
  shows "\<exists>ps. substitute before str = join (current D) ps \<and>
      (\<forall>p\<in>set ps. \<not> sublist (current D) p) \<and>
      (\<forall>p\<in>set (butlast ps). \<not> sublist (current D) (p @ butlast (current D))) \<and>
      rewriteProtocols str = join (new D) (map (substitute rest) ps)"
proof -
  define doc where "doc = substitute before str"
  have run: "rewriteProtocols str = substitute rest (replace (current D) (new D) doc)"
    by (simp add: rewriteProtocols_def ds substitute_append doc_def)
  have nl: "CHR 0x0A \<notin> set e" if "e \<in> set rest" for e
  proof -
    from that ds have "e \<in> set (data str)" by simp
    then show ?thesis by (rule data_no_newline)
  qed
  from pd have dn: "D \<noteq> []" by (simp add: plain_name_def)
  show ?thesis
  proof (cases "sublist '' {'' D")
    case True
    then have "sublist '' {'' ('' '' @ D)" by (simp add: sublist_Cons_right)
    with cs have ap: "\<forall>e\<in>set (data str). plain_name e" by blast
    from brace_name_absent [OF ap ds True] have ab: "\<not> sublist (current D) doc"
      by (simp add: doc_def)
    then have "replace (current D) (new D) doc = doc"
      by (simp add: replace_absent [OF current_not_Nil])
    with run have "rewriteProtocols str = join (new D) (map (substitute rest) [doc])" by simp
    moreover have "doc = join (current D) [doc]" by simp
    moreover from ab have "\<forall>p\<in>set [doc]. \<not> sublist (current D) p" by simp
    moreover have "\<forall>p\<in>set (butlast [doc]). \<not> sublist (current D) (p @ butlast (current D))"
      by simp
    ultimately show ?thesis unfolding doc_def by blast
  next
    case False
    have later: "\<forall>e\<in>set rest. (hd D \<noteq> CHR ''{'' \<or> plain_name e) \<and> CHR 0x0A \<notin> set e"
    proof
      fix e assume e: "e \<in> set rest"
      have "hd D \<noteq> CHR ''{'' \<or> plain_name e"
      proof (cases "hd D = CHR ''{''")
        case True
        with dn have "prefix '' {'' ('' '' @ D)" by (cases D) simp_all
        then have "sublist '' {'' ('' '' @ D)" by (rule prefix_imp_sublist)
        with cs have "\<forall>e\<in>set (data str). plain_name e" by blast
        with e ds show ?thesis by simp
      next
        case False
        then show ?thesis by simp
      qed
      with nl [OF e] show "(hd D \<noteq> CHR ''{'' \<or> plain_name e) \<and> CHR 0x0A \<notin> set e" by simp
    qed
    from replace_pieces [OF current_not_Nil, of doc D "new D"]
    obtain ps where ps: "doc = join (current D) ps"
      "replace (current D) (new D) doc = join (new D) ps"
      "\<forall>p\<in>set ps. \<not> sublist (current D) p"
      "\<forall>p\<in>set (butlast ps). \<not> sublist (current D) (p @ butlast (current D))" by blast
    from run ps(2) have "rewriteProtocols str = substitute rest (join (new D) ps)" by simp
    also have "\<dots> = join (new D) (map (substitute rest) ps)"
      using pd False later by (rule substitute_join_new)
    finally show ?thesis using ps(1,3,4) unfolding doc_def by blast
  qed
qed

text \<open>
  C8 (as amended): the rule for \<open>D\<close> writes \<open>protocol D{ }\<close>, one line feed,
  \<open>extension D {\<close> in the place of the leftmost occurrence and rewrites the rest of
  the text in the same way. In the returned text every occurrence so rewritten still
  has this form, when \<open>D\<close> is plain and either every processed name is plain or \<open>D\<close>
  has no brace at its start or behind a space: the returned text is the pieces of the
  text the rule for \<open>D\<close> was applied to, as the later rules rewrite them, joined by
  the written form. A name that is not plain need not keep it: the rule of a later name
  may rewrite inside the written form.
\<close>

theorem C8_extension_follows:
  "(\<not> sublist (current D) (a @ butlast (current D)) \<longrightarrow>
      replace (current D) (new D) (a @ current D @ b) =
        a @ '' protocol '' @ D @ ''{ }'' @ [CHR 0x0A] @ ''extension '' @ D @ '' {'' @
          replace (current D) (new D) b) \<and>
   (data str = before @ D # rest \<and> plain_name D \<and>
      ((\<forall>e\<in>set (data str). plain_name e) \<or> \<not> sublist '' {'' ('' '' @ D)) \<longrightarrow>
      (\<exists>ps. substitute before str = join (current D) ps \<and>
         (\<forall>p\<in>set ps. \<not> sublist (current D) p) \<and>
         (\<forall>p\<in>set (butlast ps). \<not> sublist (current D) (p @ butlast (current D))) \<and>
         rewriteProtocols str =
           join ('' protocol '' @ D @ ''{ }'' @ [CHR 0x0A] @ ''extension '' @ D @ '' {'')
             (map (substitute rest) ps)))"
proof (intro conjI impI)
  assume "\<not> sublist (current D) (a @ butlast (current D))"
  from replace_leftmost [OF current_not_Nil this, of "new D" b]
  show "replace (current D) (new D) (a @ current D @ b) =
        a @ '' protocol '' @ D @ ''{ }'' @ [CHR 0x0A] @ ''extension '' @ D @ '' {'' @
          replace (current D) (new D) b"
    by (simp add: new_def)
next
  assume h: "data str = before @ D # rest \<and> plain_name D \<and>
      ((\<forall>e\<in>set (data str). plain_name e) \<or> \<not> sublist '' {'' ('' '' @ D))"
  have n: "'' protocol '' @ D @ ''{ }'' @ [CHR 0x0A] @ ''extension '' @ D @ '' {'' = new D"
    by (simp add: new_def)
  from h written_forms_stay [of str before D rest]
  show "\<exists>ps. substitute before str = join (current D) ps \<and>
         (\<forall>p\<in>set ps. \<not> sublist (current D) p) \<and>
         (\<forall>p\<in>set (butlast ps). \<not> sublist (current D) (p @ butlast (current D))) \<and>
         rewriteProtocols str =
           join ('' protocol '' @ D @ ''{ }'' @ [CHR 0x0A] @ ''extension '' @ D @ '' {'')
             (map (substitute rest) ps)"
    unfolding n by blast
qed

theorem C8_counterexample:
  "''A protocol B'' \<in> set (data '' protocol A protocol B { protocol B {'') \<and>
   \<not> sublist ''protocol A protocol B{ }'' '' protocol A protocol B { protocol B {'' \<and>
   sublist ''protocol A protocol B{ }'' (rewriteProtocols '' protocol A protocol B { protocol B {'') \<and>
   \<not> sublist ''extension A protocol B {'' (rewriteProtocols '' protocol A protocol B { protocol B {'')"
  by (simp add: rewriteProtocols_def data_def allProtocols_def moreProtocols_def
      fromkeys_def current_def new_def sublist_Cons_right)

theorem C8_witness:
  "\<not> sublist (current ''Sample'') (''foo'' @ butlast (current ''Sample'')) \<and>
   replace (current ''Sample'') (new ''Sample'') ''foo protocol Sample { bar }'' =
     ''foo protocol Sample{ }\<newline>extension Sample { bar }'' \<and>
   data '' protocol A { protocol B { protocol A {'' = [] @ ''A'' # [''B''] \<and>
   plain_name ''A'' \<and> plain_name ''B'' \<and>
   (\<exists>ps. substitute [] '' protocol A { protocol B { protocol A {'' = join (current ''A'') ps \<and>
      (\<forall>p\<in>set ps. \<not> sublist (current ''A'') p) \<and>
      rewriteProtocols '' protocol A { protocol B { protocol A {'' =
        join '' protocol A{ }\<newline>extension A {'' (map (substitute [''B'']) ps))"
proof -
  let ?s = "'' protocol A { protocol B { protocol A {''"
  have s1: "\<not> sublist (current ''Sample'') (''foo'' @ butlast (current ''Sample''))"
    by (simp add: current_def sublist_Cons_right)
  from C8_extension_follows [of "''Sample''" "''foo''" "'' bar }''"] s1
  have "replace (current ''Sample'') (new ''Sample'') (''foo'' @ current ''Sample'' @ '' bar }'') =
      ''foo'' @ '' protocol '' @ ''Sample'' @ ''{ }'' @ [CHR 0x0A] @ ''extension '' @ ''Sample'' @ '' {'' @
        replace (current ''Sample'') (new ''Sample'') '' bar }''"
    by blast
  then have s2: "replace (current ''Sample'') (new ''Sample'') ''foo protocol Sample { bar }'' =
     ''foo protocol Sample{ }\<newline>extension Sample { bar }''"
    by (simp add: current_def new_def)
  have d: "data ?s = [] @ ''A'' # [''B'']"
    by (simp add: data_def allProtocols_def moreProtocols_def fromkeys_def)
  have p: "plain_name ''A''" "plain_name ''B''"
    by (simp_all add: plain_name_def sublist_Cons_right)
  from d p have "\<forall>e\<in>set (data ?s). plain_name e" by simp
  with d p C8_extension_follows [of "''A''" _ _ ?s "[]" "[''B'']"]
  have "\<exists>ps. substitute [] ?s = join (current ''A'') ps \<and>
         (\<forall>p\<in>set ps. \<not> sublist (current ''A'') p) \<and>
         (\<forall>p\<in>set (butlast ps). \<not> sublist (current ''A'') (p @ butlast (current ''A''))) \<and>
         rewriteProtocols ?s =
           join ('' protocol '' @ ''A'' @ ''{ }'' @ [CHR 0x0A] @ ''extension '' @ ''A'' @ '' {'')
             (map (substitute [''B'']) ps)"
    by blast
  then have "\<exists>ps. substitute [] ?s = join (current ''A'') ps \<and>
      (\<forall>p\<in>set ps. \<not> sublist (current ''A'') p) \<and>
      rewriteProtocols ?s = join '' protocol A{ }\<newline>extension A {'' (map (substitute [''B'']) ps)"
    by auto
  with s1 s2 d p show ?thesis by blast
qed

end
